theory Spec2Isabelle
  imports Main
begin

section \<open>Source maps for YAML token streams\<close>

text \<open>
  This theory embeds \<^verbatim>\<open>yaml_source_map/handle.py\<close>: the three functions
  \<^verbatim>\<open>value\<close>, \<^verbatim>\<open>sequence\<close> and \<^verbatim>\<open>primitive\<close>, which walk the token
  stream of a YAML loader and return, for every value of the document, its JSON pointer
  and the span of source text it occupies.
\<close>

subsection \<open>Tokens and marks\<close>

text \<open>
  The token classes are those of PyYAML's \<^verbatim>\<open>yaml.tokens\<close> module. The source tells
  them apart with \<^verbatim>\<open>isinstance\<close> only, so a token is modelled by the name of its
  class and its two marks. A mark carries the fields the source reads: \<^verbatim>\<open>line\<close>,
  \<^verbatim>\<open>column\<close> and \<^verbatim>\<open>index\<close>, Python integers.
\<close>

datatype token_kind =
    DirectiveToken | DocumentStartToken | DocumentEndToken | StreamStartToken
  | StreamEndToken | BlockSequenceStartToken | BlockMappingStartToken | BlockEndToken
  | FlowSequenceStartToken | FlowMappingStartToken | FlowSequenceEndToken
  | FlowMappingEndToken | KeyToken | ValueToken | BlockEntryToken | FlowEntryToken
  | AliasToken | AnchorToken | TagToken | ScalarToken

record mark =
  index :: int
  line :: int
  column :: int

record token =
  kind :: token_kind
  start_mark :: mark
  end_mark :: mark

subsection \<open>The loader\<close>

text \<open>
  The source uses two methods of the loader. \<^verbatim>\<open>peek_token\<close> returns the next token
  and leaves it in the queue; \<^verbatim>\<open>get_token\<close> removes it. Both return \<^verbatim>\<open>None\<close>
  when no token is left. The loader is the one mutable object of the program: it is
  modelled as the list of tokens still to come, passed in and returned.
  \<^verbatim>\<open>isinstance\<close> is false of \<^verbatim>\<open>None\<close> for every token class.
\<close>

type_synonym loader = "token list"

definition peek_token :: "loader \<Rightarrow> token option" where
  "peek_token loader = (case loader of [] \<Rightarrow> None | t # _ \<Rightarrow> Some t)"

definition get_token :: "loader \<Rightarrow> token option \<times> loader" where
  "get_token loader = (case loader of [] \<Rightarrow> (None, []) | t # rest \<Rightarrow> (Some t, rest))"

definition isinstance :: "token option \<Rightarrow> token_kind list \<Rightarrow> bool" where
  "isinstance tok classes = (case tok of None \<Rightarrow> False | Some t \<Rightarrow> kind t \<in> set classes)"

subsection \<open>Locations, entries and errors\<close>

text \<open>
  Modelled from the spec: the classes \<^verbatim>\<open>types.Location\<close> and \<^verbatim>\<open>types.Entry\<close> and
  the exception \<^verbatim>\<open>errors.InvalidYamlError\<close>, whose modules are not among the sources.
  A location is the triple (line, column, offset) in the order the source passes its
  arguments; an entry is the pair of a value's start and end locations. The error
  carries its message: the fixed text and the token the source formats into it.
\<close>

datatype Location = Location (loc_line: int) (loc_column: int) (loc_offset: int)

datatype Entry = Entry (value_start: Location) (value_end: Location)

type_synonym TSourceMapEntries = "(string \<times> Entry) list"

datatype error = InvalidYamlError string "token option"

type_synonym 'a result = "(error + 'a) \<times> loader"

text \<open>
  A function of the source either returns or raises, and in both cases leaves the loader
  advanced past the tokens it took.
\<close>

subsection \<open>Decimal rendering of the element index\<close>

text \<open>
  The f-string \<^verbatim>\<open>f"/{sequence_index}{pointer}"\<close> writes the index in decimal. The
  index starts at 0 and is only ever incremented, so it is a natural number.
\<close>

definition digit_chars :: string where
  "digit_chars = ''0123456789''"

function decimal :: "nat \<Rightarrow> string" where
  "decimal n = (if n < 10 then [digit_chars ! n] else decimal (n div 10) @ [digit_chars ! (n mod 10)])"
  by pat_completeness auto

termination
  by (relation "measure id") auto

declare decimal.simps [simp del]

subsection \<open>The walk\<close>

definition primitive :: "loader \<Rightarrow> TSourceMapEntries result" where
  "primitive loader =
     (case get_token loader of (tok, loader1) \<Rightarrow>
        (case tok of
           None \<Rightarrow> (Inl (InvalidYamlError ''expected scalar but received'' tok), loader1)
         | Some t \<Rightarrow>
             if kind t \<noteq> ScalarToken
             then (Inl (InvalidYamlError ''expected scalar but received'' tok), loader1)
             else (Inr [('''',
                     Entry (Location (line (start_mark t)) (column (start_mark t)) (index (start_mark t)))
                           (Location (line (end_mark t)) (column (end_mark t)) (index (end_mark t))))],
                   loader1)))"

text \<open>
  \<^verbatim>\<open>value\<close> and \<^verbatim>\<open>sequence\<close> call each other. The \<^verbatim>\<open>while\<close> loop of
  \<^verbatim>\<open>sequence\<close> is the third function, \<open>sequence_loop\<close>: its arguments are the
  loop's variables \<^verbatim>\<open>sequence_index\<close> and \<^verbatim>\<open>entries\<close> and the loader, and it
  returns them as they are when the loop ends. (\<open>value\<close> is an Isabelle keyword, hence
  the prime.)
\<close>

function value' :: "loader \<Rightarrow> TSourceMapEntries result"
  and sequence :: "loader \<Rightarrow> TSourceMapEntries result"
  and sequence_loop :: "nat \<Rightarrow> TSourceMapEntries \<Rightarrow> loader \<Rightarrow> (nat \<times> TSourceMapEntries) result"
where
  "value' loader =
     (if isinstance (peek_token loader) [FlowSequenceStartToken, BlockSequenceStartToken]
      then sequence loader
      else primitive loader)"
| "sequence loader =
     (case get_token loader of (tok, loader1) \<Rightarrow>
        (case tok of
           None \<Rightarrow> (Inl (InvalidYamlError ''expected sequence or block sequence start but received'' tok), loader1)
         | Some t \<Rightarrow>
             if kind t \<notin> set [FlowSequenceStartToken, BlockSequenceStartToken]
             then (Inl (InvalidYamlError ''expected sequence or block sequence start but received'' tok), loader1)
             else
               (case sequence_loop 0 [] loader1 of
                  (Inl e, loader2) \<Rightarrow> (Inl e, loader2)
                | (Inr (sequence_index, entries), loader2) \<Rightarrow>
                    (case get_token loader2 of (tok2, loader3) \<Rightarrow>
                       (case tok2 of
                          None \<Rightarrow> (Inl (InvalidYamlError ''expected sequence or block end but received'' tok2), loader3)
                        | Some t2 \<Rightarrow>
                            if kind t2 \<notin> set [FlowSequenceEndToken, BlockEndToken]
                            then (Inl (InvalidYamlError ''expected sequence or block end but received'' tok2), loader3)
                            else (Inr (('''',
                                    Entry (Location (line (start_mark t)) (column (start_mark t)) (index (start_mark t)))
                                          (Location (line (end_mark t2)) (column (end_mark t2)) (index (end_mark t2))))
                                   # entries),
                                  loader3))))))"
| "sequence_loop sequence_index entries loader =
     (if isinstance (peek_token loader) [FlowSequenceEndToken, BlockEndToken]
      then (Inr (sequence_index, entries), loader)
      else
        let loader1 = (if isinstance (peek_token loader) [BlockEntryToken]
                       then snd (get_token loader) else loader)
        in (case value' loader1 of
              (Inl e, loader2) \<Rightarrow> (Inl e, loader2)
            | (Inr value_entries, loader2) \<Rightarrow>
                let entries' = entries @ map (\<lambda>(pointer, entry). (''/'' @ decimal sequence_index @ pointer, entry)) value_entries;
                    loader3 = (if isinstance (peek_token loader2) [FlowEntryToken]
                               then snd (get_token loader2) else loader2)
                in sequence_loop (sequence_index + 1) entries' loader3))"
  by pat_completeness auto

text \<open>
  Termination: a successful \<open>value'\<close> takes at least one token, so every round of
  the loop shortens the token list. This is proved on the domain of the functions first.
\<close>

lemma get_token_length: "get_token l = (tok, rest) \<Longrightarrow> length rest \<le> length l"
  by (auto simp: get_token_def split: list.splits)

lemma get_token_Some_length: "get_token l = (Some t, rest) \<Longrightarrow> length rest < length l"
  by (auto simp: get_token_def split: list.splits)

lemma snd_get_token_length: "length (snd (get_token l)) \<le> length l"
  by (auto simp: get_token_def split: list.splits)

lemma primitive_progress: "primitive l = (Inr es, rest) \<Longrightarrow> length rest < length l"
  by (auto simp: primitive_def get_token_def split: list.splits if_splits)

lemma progress_dom:
  "value'_sequence_sequence_loop_dom (Inl l) \<Longrightarrow>
     (\<forall>es rest. value' l = (Inr es, rest) \<longrightarrow> length rest < length l)"
  "value'_sequence_sequence_loop_dom (Inr (Inl l)) \<Longrightarrow>
     (\<forall>es rest. sequence l = (Inr es, rest) \<longrightarrow> length rest < length l)"
  "value'_sequence_sequence_loop_dom (Inr (Inr (i, acc, l))) \<Longrightarrow>
     (\<forall>r rest. sequence_loop i acc l = (Inr r, rest) \<longrightarrow> length rest \<le> length l)"
proof (induction rule: value'_sequence_sequence_loop.pinduct)
  case (1 loader)
  note eq = value'.psimps[OF 1(1)]
  show ?case
  proof (cases "isinstance (peek_token loader) [FlowSequenceStartToken, BlockSequenceStartToken]")
    case True
    with eq have "value' loader = sequence loader" by simp
    with 1(2)[OF True] show ?thesis by simp
  next
    case False
    with eq have "value' loader = primitive loader" by simp
    then show ?thesis by (simp add: primitive_progress)
  qed
next
  case (2 loader)
  note eq = sequence.psimps[OF 2(1)]
  show ?case
  proof (intro allI impI)
    fix es rest assume a: "sequence loader = (Inr es, rest)"
    obtain tok l1 where g: "get_token loader = (tok, l1)" by (cases "get_token loader")
    from a g eq obtain t where t: "tok = Some t"
      by (cases tok) auto
    from a g t eq have k: "\<not> kind t \<notin> set [FlowSequenceStartToken, BlockSequenceStartToken]"
      by (auto split: if_splits)
    obtain res l2 where lp: "sequence_loop 0 [] l1 = (res, l2)" by (cases "sequence_loop 0 [] l1")
    from a g t k eq lp obtain i entries where res: "res = Inr (i, entries)"
      by (cases res) (auto split: if_splits)
    obtain tok2 l3 where g2: "get_token l2 = (tok2, l3)" by (cases "get_token l2")
    from a g t k eq lp res g2 have r: "rest = l3"
      by (auto split: option.splits if_splits)
    from 2(2)[OF g[symmetric] t k] lp res have "length l2 \<le> length l1" by simp
    with r get_token_length[OF g2] get_token_Some_length[OF g[unfolded t]]
    show "length rest < length loader" by simp
  qed
next
  case (3 sequence_index entries loader)
  note eq = sequence_loop.psimps[OF 3(1)]
  show ?case
  proof (intro allI impI)
    fix r rest assume a: "sequence_loop sequence_index entries loader = (Inr r, rest)"
    show "length rest \<le> length loader"
    proof (cases "isinstance (peek_token loader) [FlowSequenceEndToken, BlockEndToken]")
      case True
      with a eq show ?thesis by simp
    next
      case False
      define l1 where "l1 = (if isinstance (peek_token loader) [BlockEntryToken]
             then snd (get_token loader) else loader)"
      have l1: "length l1 \<le> length loader" by (simp add: l1_def snd_get_token_length)
      obtain res l2 where v: "value' l1 = (res, l2)" by (cases "value' l1")
      define l3 where "l3 = (if isinstance (peek_token l2) [FlowEntryToken]
            then snd (get_token l2) else l2)"
      have l3: "length l3 \<le> length l2" by (simp add: l3_def snd_get_token_length)
      have eq': "sequence_loop sequence_index entries loader =
           (case res of Inl e \<Rightarrow> (Inl e, l2)
            | Inr ves \<Rightarrow> sequence_loop (sequence_index + 1)
                 (entries @ map (\<lambda>(pointer, y). (''/'' @ decimal sequence_index @ pointer, y)) ves) l3)"
        unfolding eq l1_def l3_def using False v[unfolded l1_def]
        by (simp add: Let_def split: sum.splits)
      from a eq' obtain ves where res: "res = Inr ves" by (cases res) auto
      from 3(2)[OF False l1_def] v res have l2: "length l2 < length l1" by simp
      from a eq' res have
        "sequence_loop (sequence_index + 1) (entries @ map (\<lambda>(pointer, y). (''/'' @ decimal sequence_index @ pointer, y)) ves) l3 = (Inr r, rest)"
        by simp
      with 3(3)[OF False l1_def v[symmetric] res refl l3_def] have "length rest \<le> length l3" by simp
      with l1 l2 l3 show ?thesis by simp
    qed
  qed
qed

termination value'
proof (relation "measures [\<lambda>x. case x of Inl l \<Rightarrow> length l | Inr (Inl l) \<Rightarrow> length l | Inr (Inr (_, _, l)) \<Rightarrow> length l,
                           \<lambda>x. case x of Inl l \<Rightarrow> 2 | Inr (Inl l) \<Rightarrow> 1 | Inr (Inr (_, _, l)) \<Rightarrow> 3]", goal_cases)
  case 1 show ?case by simp
next
  case (2 loader) show ?case by simp
next
  case (3 loader x y x2)
  from 3(1) 3(2) have "get_token loader = (Some x2, y)" by simp
  from get_token_Some_length[OF this] show ?case by simp
next
  case (4 sequence_index entries loader x)
  then show ?case using snd_get_token_length[of loader] by auto
next
  case (5 sequence_index entries loader x xa y b xb xc)
  from progress_dom(1)[OF 5(7)] 5(3)[symmetric] 5(4) have "length y < length x" by simp
  moreover have "length x \<le> length loader" using 5(2) snd_get_token_length[of loader] by auto
  moreover have "length xc \<le> length y" using 5(6) snd_get_token_length[of y] by auto
  ultimately show ?case by simp
qed

declare value'.simps [simp del] sequence.simps [simp del] sequence_loop.simps [simp del]

section \<open>Notions used to state the properties\<close>

subsection \<open>Parts of the loop\<close>

text \<open>
  The start and end locations the source builds from a token's marks, the two optional
  skips of the loop body, the re-prefixing of an element's entries, and the two tests on
  the next token.
\<close>

definition token_start :: "token \<Rightarrow> Location" where
  "token_start t = Location (line (start_mark t)) (column (start_mark t)) (index (start_mark t))"

definition token_end :: "token \<Rightarrow> Location" where
  "token_end t = Location (line (end_mark t)) (column (end_mark t)) (index (end_mark t))"

definition skip_block_entry :: "loader \<Rightarrow> loader" where
  "skip_block_entry loader =
     (if isinstance (peek_token loader) [BlockEntryToken] then snd (get_token loader) else loader)"

definition skip_flow_entry :: "loader \<Rightarrow> loader" where
  "skip_flow_entry loader =
     (if isinstance (peek_token loader) [FlowEntryToken] then snd (get_token loader) else loader)"

definition prefix_entry :: "nat \<Rightarrow> string \<times> Entry \<Rightarrow> string \<times> Entry" where
  "prefix_entry sequence_index = (\<lambda>(pointer, entry). (''/'' @ decimal sequence_index @ pointer, entry))"

definition at_end :: "loader \<Rightarrow> bool" where
  "at_end loader = isinstance (peek_token loader) [FlowSequenceEndToken, BlockEndToken]"

definition at_start :: "loader \<Rightarrow> bool" where
  "at_start loader = isinstance (peek_token loader) [FlowSequenceStartToken, BlockSequenceStartToken]"

subsection \<open>Tokens of example documents\<close>

text \<open>
  A mark from its index, line and column, and a token from its class and its two marks;
  the theorems below are instantiated at tokens built this way.
\<close>

definition mark_at :: "int \<Rightarrow> int \<Rightarrow> int \<Rightarrow> mark" where
  "mark_at i l c = \<lparr>index = i, line = l, column = c\<rparr>"

definition mk_token :: "token_kind \<Rightarrow> mark \<Rightarrow> mark \<Rightarrow> token" where
  "mk_token k s e = \<lparr>kind = k, start_mark = s, end_mark = e\<rparr>"

subsection \<open>Closing a sequence\<close>

text \<open>
  \<open>closes d ts\<close> scans the tokens \<open>ts\<close> for the end token of a sequence that is open
  with \<open>d\<close> further sequences open inside it: a start token goes one level deeper, an end
  token one level up, and the end token met at depth 0 is the one that closes the
  sequence. It follows what the source accepts, not the pairing by form: a flow sequence
  end and a block end each close a sequence of either form. Every other token is passed
  over.
\<close>

fun closes :: "nat \<Rightarrow> token list \<Rightarrow> bool" where
  "closes d [] = False"
| "closes d (t # ts) =
     (if kind t = FlowSequenceStartToken \<or> kind t = BlockSequenceStartToken then closes (Suc d) ts
      else if kind t = FlowSequenceEndToken \<or> kind t = BlockEndToken
        then (case d of 0 \<Rightarrow> True | Suc d' \<Rightarrow> closes d' ts)
      else closes d ts)"

subsection \<open>Pointers\<close>

text \<open>
  The pointer an entry gets when its element has index \<open>i\<close>; a pointer relative to a
  value (empty, or beginning with a slash); \<open>is_ancestor p q\<close>: the pointer \<open>q\<close> is
  \<open>p\<close> followed by a slash and more, so the value at \<open>q\<close> lies inside the value at
  \<open>p\<close>; \<open>parent_first\<close>: no pointer of the list is an ancestor of one that stands
  before it; and the number of segments of a pointer.
\<close>

definition reprefix :: "nat \<Rightarrow> string \<Rightarrow> string" where
  "reprefix i pointer = ''/'' @ decimal i @ pointer"

definition relative :: "string \<Rightarrow> bool" where
  "relative p = (case p of [] \<Rightarrow> True | c # _ \<Rightarrow> c = CHR ''/'')"

definition is_ancestor :: "string \<Rightarrow> string \<Rightarrow> bool" where
  "is_ancestor p q = (take (Suc (length p)) q = p @ ''/'')"

fun parent_first :: "string list \<Rightarrow> bool" where
  "parent_first [] = True"
| "parent_first (p # ps) = (list_all (\<lambda>q. \<not> is_ancestor q p) ps \<and> parent_first ps)"

definition depth :: "string \<Rightarrow> nat" where
  "depth p = length (filter (\<lambda>c. c = CHR ''/'') p)"

subsection \<open>The shape of a source map\<close>

text \<open>
  \<open>element_entries i subs\<close> is what the loop adds to \<^verbatim>\<open>entries\<close> for elements whose
  own source maps are \<open>subs\<close>, the first of them at index \<open>i\<close>: each map re-prefixed
  with its element's index, one after the other. \<open>child_pointers\<close> is the same on
  pointers alone. The pointer lists that arise are described by \<open>source_map\<close>: the empty
  pointer alone, or the empty pointer followed by the re-prefixed pointer lists of the
  elements.
\<close>

definition element_entries :: "nat \<Rightarrow> TSourceMapEntries list \<Rightarrow> TSourceMapEntries" where
  "element_entries i subs =
     concat (map2 (\<lambda>j sub. map (prefix_entry j) sub) [i..<i + length subs] subs)"

fun child_pointers :: "nat \<Rightarrow> string list list \<Rightarrow> string list" where
  "child_pointers i [] = []"
| "child_pointers i (sub # subs) = map (reprefix i) sub @ child_pointers (Suc i) subs"

inductive source_map :: "string list \<Rightarrow> bool" where
  leaf: "source_map ['''']"
| node: "list_all source_map subs \<Longrightarrow> source_map ('''' # child_pointers 0 subs)"

subsection \<open>Offsets and spans\<close>

text \<open>
  The source copies the marks of the tokens into the entries and compares nothing. What
  can be said of the spans therefore rests on the order of the marks in the stream:
  \<open>offsets\<close> lists the start and end index of every token in stream order. The list
  is sorted when every token ends no earlier than it starts and no token starts before
  the one in front of it has ended, as for tokens given in document order.
  \<open>span_in pre e\<close>: the start offset of the entry \<open>e\<close> stands in the offsets of \<open>pre\<close>,
  and its end offset stands there too, further back.
\<close>

definition offsets :: "token list \<Rightarrow> int list" where
  "offsets ts = concat (map (\<lambda>t. [index (start_mark t), index (end_mark t)]) ts)"

definition span_in :: "token list \<Rightarrow> Entry \<Rightarrow> bool" where
  "span_in pre e =
     (\<exists>A B C. offsets pre = A @ loc_offset (value_start e) # B @ loc_offset (value_end e) # C)"

section \<open>The walk, token by token\<close>

subsection \<open>The three functions in terms of the parts of the loop\<close>

text \<open>
  One step of each function, written with the parts of the loop, and the induction rule
  of the three functions in the same terms.
\<close>

lemma peek_token_simps [simp]: "peek_token [] = None" "peek_token (t # l) = Some t"
  by (simp_all add: peek_token_def)

lemma get_token_simps [simp]: "get_token [] = (None, [])" "get_token (t # l) = (Some t, l)"
  by (simp_all add: get_token_def)

lemma isinstance_simps [simp]:
  "isinstance None classes = False"
  "isinstance (Some t) classes = (kind t \<in> set classes)"
  by (simp_all add: isinstance_def)

lemma value_unfold:
  "value' loader = (if at_start loader then sequence loader else primitive loader)"
  by (simp add: value'.simps at_start_def)

lemma sequence_Nil:
  "sequence [] = (Inl (InvalidYamlError ''expected sequence or block sequence start but received'' None), [])"
  by (simp add: sequence.simps)

lemma sequence_not_start:
  "\<not> at_start (t # body) \<Longrightarrow>
   sequence (t # body) = (Inl (InvalidYamlError ''expected sequence or block sequence start but received'' (Some t)), body)"
  by (simp add: sequence.simps at_start_def)

lemma sequence_loop_unfold:
  "sequence_loop i acc loader =
     (if at_end loader then (Inr (i, acc), loader)
      else case value' (skip_block_entry loader) of
             (Inl e, loader2) \<Rightarrow> (Inl e, loader2)
           | (Inr value_entries, loader2) \<Rightarrow>
               sequence_loop (i + 1) (acc @ map (prefix_entry i) value_entries) (skip_flow_entry loader2))"
  by (subst sequence_loop.simps)
     (simp add: at_end_def skip_block_entry_def skip_flow_entry_def prefix_entry_def Let_def
           split: prod.splits sum.splits)

lemma sequence_start:
  "at_start (s # body) \<Longrightarrow>
   sequence (s # body) =
     (case sequence_loop 0 [] body of
        (Inl e, loader2) \<Rightarrow> (Inl e, loader2)
      | (Inr (k, entries), loader2) \<Rightarrow>
          (case loader2 of
             [] \<Rightarrow> (Inl (InvalidYamlError ''expected sequence or block end but received'' None), [])
           | e # rest \<Rightarrow>
               if at_end (e # rest)
               then (Inr (('''', Entry (token_start s) (token_end e)) # entries), rest)
               else (Inl (InvalidYamlError ''expected sequence or block end but received'' (Some e)), rest)))"
  by (subst sequence.simps)
     (simp add: at_start_def at_end_def token_start_def token_end_def
           split: prod.splits sum.splits list.splits)

lemma walk_induct [case_names walk_value walk_sequence walk_loop]:
  assumes V: "\<And>loader. (at_start loader \<Longrightarrow> Q loader) \<Longrightarrow> P loader"
    and S: "\<And>loader. (\<And>s body. loader = s # body \<Longrightarrow> at_start loader \<Longrightarrow> R 0 [] body) \<Longrightarrow> Q loader"
    and L: "\<And>i acc loader.
              (\<not> at_end loader \<Longrightarrow> P (skip_block_entry loader)) \<Longrightarrow>
              (\<And>value_entries loader2.
                  \<not> at_end loader \<Longrightarrow>
                  value' (skip_block_entry loader) = (Inr value_entries, loader2) \<Longrightarrow>
                  R (i + 1) (acc @ map (prefix_entry i) value_entries) (skip_flow_entry loader2)) \<Longrightarrow>
              R i acc loader"
  shows "P l0" and "Q l0" and "R i0 acc0 l0"
proof (induction l0 and l0 and i0 acc0 l0 rule: value'_sequence_sequence_loop.induct)
  case (1 loader)
  then show ?case by (intro V) (simp add: at_start_def)
next
  case (2 loader)
  show ?case
  proof (rule S)
    fix s body assume "loader = s # body" "at_start loader"
    then show "R 0 [] body"
      using 2[of "Some s" body s] by (simp add: at_start_def)
  qed
next
  case (3 sequence_index entries loader)
  show ?case
  proof (rule L)
    assume "\<not> at_end loader"
    then show "P (skip_block_entry loader)"
      using 3(1)[OF _ refl] by (simp add: at_end_def skip_block_entry_def)
  next
    fix value_entries loader2
    assume a: "\<not> at_end loader" and v: "value' (skip_block_entry loader) = (Inr value_entries, loader2)"
    from a have ne: "\<not> isinstance (peek_token loader) [FlowSequenceEndToken, BlockEndToken]"
      by (simp add: at_end_def)
    have "R (sequence_index + 1)
            (entries @ map (\<lambda>(pointer, y). (''/'' @ decimal sequence_index @ pointer, y)) value_entries)
            (if isinstance (peek_token loader2) [FlowEntryToken] then snd (get_token loader2) else loader2)"
      by (rule 3(2)[OF ne refl _ refl refl refl]) (simp add: v[unfolded skip_block_entry_def])
    then show "R (sequence_index + 1) (entries @ map (prefix_entry sequence_index) value_entries) (skip_flow_entry loader2)"
      by (simp add: prefix_entry_def skip_flow_entry_def)
  qed
qed

subsection \<open>Successful runs\<close>

text \<open>
  The tests and skips on a stream given by its first token, an induction rule for the
  loop alone, and the shape of every successful run: a loop ends only in front of an
  end token, a sequence is a start token, the rounds of its loop and an end token, and
  a value is a sequence or a single scalar token.
\<close>

lemma at_start_simps [simp]:
  "at_start [] = False"
  "at_start (t # l) = (kind t = FlowSequenceStartToken \<or> kind t = BlockSequenceStartToken)"
  by (auto simp: at_start_def)

lemma at_end_simps [simp]:
  "at_end [] = False"
  "at_end (t # l) = (kind t = FlowSequenceEndToken \<or> kind t = BlockEndToken)"
  by (auto simp: at_end_def)

lemma skip_block_entry_simps [simp]:
  "skip_block_entry [] = []"
  "skip_block_entry (t # l) = (if kind t = BlockEntryToken then l else t # l)"
  by (simp_all add: skip_block_entry_def)

lemma skip_flow_entry_simps [simp]:
  "skip_flow_entry [] = []"
  "skip_flow_entry (t # l) = (if kind t = FlowEntryToken then l else t # l)"
  by (simp_all add: skip_flow_entry_def)

lemma primitive_simps:
  "primitive [] = (Inl (InvalidYamlError ''expected scalar but received'' None), [])"
  "primitive (t # rest) =
     (if kind t = ScalarToken then Inr [('''', Entry (token_start t) (token_end t))]
      else Inl (InvalidYamlError ''expected scalar but received'' (Some t)), rest)"
  by (simp_all add: primitive_def token_start_def token_end_def)

lemma sequence_loop_at_end:
  "at_end loader \<Longrightarrow> sequence_loop i acc loader = (Inr (i, acc), loader)"
  by (subst sequence_loop_unfold) simp

lemma sequence_loop_induct [case_names round]:
  assumes "\<And>i acc loader.
              (\<And>value_entries loader2.
                  \<not> at_end loader \<Longrightarrow>
                  value' (skip_block_entry loader) = (Inr value_entries, loader2) \<Longrightarrow>
                  R (i + 1) (acc @ map (prefix_entry i) value_entries) (skip_flow_entry loader2)) \<Longrightarrow>
              R i acc loader"
  shows "R i0 acc0 l0"
  by (rule walk_induct(3)[where P = "\<lambda>_. True" and Q = "\<lambda>_. True" and R = R])
     (simp_all add: assms)

lemma sequence_loop_Inr_cases [consumes 1, case_names stop step]:
  assumes "sequence_loop i acc loader = (Inr r, rest)"
  obtains "at_end loader" "r = (i, acc)" "rest = loader"
  | value_entries loader2 where
      "\<not> at_end loader"
      "value' (skip_block_entry loader) = (Inr value_entries, loader2)"
      "sequence_loop (i + 1) (acc @ map (prefix_entry i) value_entries) (skip_flow_entry loader2) = (Inr r, rest)"
proof (cases "at_end loader")
  case True
  with assms have "r = (i, acc)" "rest = loader" by (simp_all add: sequence_loop_at_end)
  with True show ?thesis by (rule that(1))
next
  case False
  with assms obtain ves l2 where
    "value' (skip_block_entry loader) = (Inr ves, l2)"
    "sequence_loop (i + 1) (acc @ map (prefix_entry i) ves) (skip_flow_entry l2) = (Inr r, rest)"
    by (subst (asm) sequence_loop_unfold) (auto split: prod.splits sum.splits)
  with False show ?thesis by (rule that(2))
qed

lemma loop_stops_at_end:
  "sequence_loop i acc loader = (Inr r, rest) \<Longrightarrow> at_end rest"
proof (induction i acc loader rule: sequence_loop_induct)
  case (round i acc loader)
  from round.prems show ?case
  proof (cases rule: sequence_loop_Inr_cases)
    case stop
    then show ?thesis by simp
  next
    case (step value_entries loader2)
    then show ?thesis by (rule round.IH)
  qed
qed

lemma sequence_Inr_cases [consumes 1, case_names closed]:
  assumes "sequence loader = (Inr es, rest)"
  obtains s body k entries e where
    "loader = s # body" "at_start loader"
    "sequence_loop 0 [] body = (Inr (k, entries), e # rest)" "at_end (e # rest)"
    "es = ('''', Entry (token_start s) (token_end e)) # entries"
proof (cases loader)
  case Nil
  with assms show ?thesis by (simp add: sequence_Nil)
next
  case (Cons s body)
  show ?thesis
  proof (cases "at_start (s # body)")
    case False
    with assms Cons show ?thesis by (simp add: sequence_not_start)
  next
    case True
    obtain res l2 where lp: "sequence_loop 0 [] body = (res, l2)"
      by (cases "sequence_loop 0 [] body")
    with assms Cons True obtain k entries where res: "res = Inr (k, entries)"
      by (cases res) (auto simp: sequence_start)
    from lp res have "at_end l2" by (auto dest: loop_stops_at_end)
    then obtain e rest' where l2: "l2 = e # rest'" by (cases l2) auto
    with \<open>at_end l2\<close> assms Cons True lp res
    have "rest' = rest" "es = ('''', Entry (token_start s) (token_end e)) # entries"
      by (auto simp: sequence_start)
    with Cons True lp res l2 \<open>at_end l2\<close> show ?thesis
      by (intro that[of s body k entries e]) simp_all
  qed
qed

lemma value_Inr_cases [consumes 1, case_names compound scalar]:
  assumes "value' loader = (Inr es, rest)"
  obtains "at_start loader" "sequence loader = (Inr es, rest)"
  | t where "loader = t # rest" "kind t = ScalarToken"
      "es = [('''', Entry (token_start t) (token_end t))]"
proof (cases "at_start loader")
  case True
  with assms have "sequence loader = (Inr es, rest)" by (simp add: value_unfold)
  with True show ?thesis by (rule that(1))
next
  case False
  with assms have p: "primitive loader = (Inr es, rest)" by (simp add: value_unfold)
  then obtain t where "loader = t # rest" "kind t = ScalarToken"
      "es = [('''', Entry (token_start t) (token_end t))]"
    by (cases loader) (auto simp: primitive_simps split: if_splits)
  then show ?thesis by (rule that(2))
qed

subsection \<open>Decimal indices\<close>

lemma decimal_digit: "n < 10 \<Longrightarrow> decimal n = [digit_chars ! n]"
  by (simp add: decimal.simps)

lemma decimal_small [simp]: "decimal 0 = ''0''" "decimal (Suc 0) = ''1''"
  by (simp_all add: decimal_digit digit_chars_def)

lemma digit_chars_nth_inj:
  assumes "a < 10" "b < 10" "digit_chars ! a = digit_chars ! b"
  shows "a = b"
proof -
  have "distinct digit_chars" "length digit_chars = 10" by (simp_all add: digit_chars_def)
  with assms show ?thesis by (simp add: nth_eq_iff_index_eq)
qed

lemma digit_chars_no_slash: "k < 10 \<Longrightarrow> digit_chars ! k \<noteq> CHR ''/''"
proof -
  assume "k < 10"
  moreover have "length digit_chars = 10" by (simp add: digit_chars_def)
  ultimately have "digit_chars ! k \<in> set digit_chars" by (intro nth_mem) simp
  moreover have "CHR ''/'' \<notin> set digit_chars" by (simp add: digit_chars_def)
  ultimately show ?thesis by metis
qed

lemma decimal_not_Nil [simp]: "decimal n \<noteq> []"
  by (subst decimal.simps) simp

lemma decimal_no_slash [simp]: "CHR ''/'' \<notin> set (decimal n)"
proof (induction n rule: decimal.induct)
  case (1 n)
  show ?case
  proof (cases "n < 10")
    case True
    then show ?thesis using digit_chars_no_slash[of n] by (subst decimal.simps) auto
  next
    case False
    with 1 show ?thesis using digit_chars_no_slash[of "n mod 10"]
      by (subst decimal.simps) auto
  qed
qed

lemma decimal_inj: "decimal n = decimal m \<Longrightarrow> n = m"
proof (induction n arbitrary: m rule: decimal.induct)
  case (1 n)
  show ?case
  proof (cases "n < 10")
    case n: True
    show ?thesis
    proof (cases "m < 10")
      case True
      with n 1(2) show ?thesis by (auto simp: decimal_digit intro: digit_chars_nth_inj)
    next
      case False
      then have "length (decimal m) \<ge> 2"
        using decimal_not_Nil[of "m div 10"]
        by (subst decimal.simps) (simp add: Suc_le_eq)
      moreover from n have "length (decimal n) = 1" by (simp add: decimal_digit)
      ultimately show ?thesis using 1(2) by simp
    qed
  next
    case n: False
    show ?thesis
    proof (cases "m < 10")
      case True
      from n have "length (decimal n) \<ge> 2"
        using decimal_not_Nil[of "n div 10"]
        by (subst decimal.simps) (simp add: Suc_le_eq)
      moreover from True have "length (decimal m) = 1" by (simp add: decimal_digit)
      ultimately show ?thesis using 1(2) by simp
    next
      case False
      from n False 1(2)
      have "decimal (n div 10) @ [digit_chars ! (n mod 10)] = decimal (m div 10) @ [digit_chars ! (m mod 10)]"
        by (subst (asm) decimal.simps, subst (asm) (2) decimal.simps) simp
      then have d: "decimal (n div 10) = decimal (m div 10)"
        and r: "digit_chars ! (n mod 10) = digit_chars ! (m mod 10)" by simp_all
      from 1(1)[OF n d] have "n div 10 = m div 10" .
      moreover from r have "n mod 10 = m mod 10" by (intro digit_chars_nth_inj) simp_all
      ultimately show ?thesis by (metis div_mult_mod_eq)
    qed
  qed
qed

section \<open>Properties of the walk\<close>

lemma mk_token_simps [simp]:
  "kind (mk_token k s e) = k"
  "token_start (mk_token k (mark_at i l c) e) = Location l c i"
  "token_end (mk_token k s (mark_at i l c)) = Location l c i"
  by (simp_all add: mk_token_def mark_at_def token_start_def token_end_def)

subsection \<open>Primitives\<close>

text \<open>
  C7. \<^verbatim>\<open>primitive\<close> takes one token from the loader. When that token is a scalar token
  the result is the single entry with the empty pointer and the token's own start and
  end marks (line, column, index); when it is any other token the call raises
  \<^verbatim>\<open>InvalidYamlError\<close> with that token. On a loader with no token left
  \<^verbatim>\<open>get_token\<close> returns \<^verbatim>\<open>None\<close>, which is not a scalar token either, and the call
  raises as well.
\<close>

theorem primitive_takes_one_token:
  "primitive loader =
     (case loader of
        [] \<Rightarrow> (Inl (InvalidYamlError ''expected scalar but received'' None), [])
      | t # rest \<Rightarrow>
          (if kind t = ScalarToken
           then Inr [('''',
                  Entry (Location (line (start_mark t)) (column (start_mark t)) (index (start_mark t)))
                        (Location (line (end_mark t)) (column (end_mark t)) (index (end_mark t))))]
           else Inl (InvalidYamlError ''expected scalar but received'' (Some t)),
           rest))"
  by (simp add: primitive_def split: list.splits)

subsection \<open>Dispatch\<close>

text \<open>
  C6. \<^verbatim>\<open>value\<close> looks at the next token without taking it: when it is a flow or block
  sequence start token the result is that of \<^verbatim>\<open>sequence\<close> on the same loader, and
  otherwise (also when no token is left) it is that of \<^verbatim>\<open>primitive\<close> on the same
  loader.
\<close>

theorem value_dispatches_on_next_token:
  "value' loader =
     (case peek_token loader of
        None \<Rightarrow> primitive loader
      | Some t \<Rightarrow>
          if kind t = FlowSequenceStartToken \<or> kind t = BlockSequenceStartToken
          then sequence loader
          else primitive loader)"
  by (cases loader) (simp_all add: value_unfold)

subsection \<open>The empty sequence\<close>

text \<open>
  C8. A sequence start token followed at once by the matching end token gives exactly one
  entry: the empty pointer, spanning from the start of the start token to the end of the
  end token. Both tokens are taken and nothing else.
\<close>

theorem sequence_empty:
  assumes "kind s = FlowSequenceStartToken \<and> kind e = FlowSequenceEndToken
         \<or> kind s = BlockSequenceStartToken \<and> kind e = BlockEndToken"
  shows "sequence (s # e # rest) = (Inr [('''', Entry (token_start s) (token_end e))], rest)"
  using assms by (auto simp: sequence_start sequence_loop_at_end)

theorem sequence_empty_witness:
  "sequence [mk_token FlowSequenceStartToken (mark_at 0 0 0) (mark_at 1 0 1),
             mk_token FlowSequenceEndToken (mark_at 1 0 1) (mark_at 2 0 2)]
   = (Inr [('''', Entry (Location 0 0 0) (Location 0 2 2))], [])"
  using sequence_empty[of "mk_token FlowSequenceStartToken (mark_at 0 0 0) (mark_at 1 0 1)"
                          "mk_token FlowSequenceEndToken (mark_at 1 0 1) (mark_at 2 0 2)" "[]"]
  by simp

subsection \<open>A nested document\<close>

text \<open>
  C9. The tokens of \<^verbatim>\<open>[[1], 2]\<close> are: flow sequence start, flow sequence start, scalar,
  flow sequence end, flow entry, scalar, flow sequence end. On them \<^verbatim>\<open>value\<close> returns
  four entries, with the pointers \<^verbatim>\<open>""\<close>, \<^verbatim>\<open>"/0"\<close>, \<^verbatim>\<open>"/0/0"\<close> and \<^verbatim>\<open>"/1"\<close> in this
  order: the pointer of the inner scalar is prefixed once by the inner sequence and once
  by the outer one.
\<close>

theorem value_nested_document:
  assumes "map kind [t1, t2, t3, t4, t5, t6, t7] =
             [FlowSequenceStartToken, FlowSequenceStartToken, ScalarToken, FlowSequenceEndToken,
              FlowEntryToken, ScalarToken, FlowSequenceEndToken]"
  shows "value' (t1 # t2 # t3 # t4 # t5 # t6 # t7 # rest) =
           (Inr [('''', Entry (token_start t1) (token_end t7)),
                 (''/0'', Entry (token_start t2) (token_end t4)),
                 (''/0/0'', Entry (token_start t3) (token_end t3)),
                 (''/1'', Entry (token_start t6) (token_end t6))],
            rest)"
proof -
  have inner: "sequence (t2 # t3 # t4 # t5 # t6 # t7 # rest) =
      (Inr [('''', Entry (token_start t2) (token_end t4)),
            (''/0'', Entry (token_start t3) (token_end t3))], t5 # t6 # t7 # rest)"
    using assms
    by (simp add: value_unfold sequence_start primitive_simps prefix_entry_def
          sequence_loop_unfold[of _ _ "t3 # _"] sequence_loop_at_end)
  have loop: "sequence_loop 0 [] (t2 # t3 # t4 # t5 # t6 # t7 # rest) =
      (Inr (2, [(''/0'', Entry (token_start t2) (token_end t4)),
                (''/0/0'', Entry (token_start t3) (token_end t3)),
                (''/1'', Entry (token_start t6) (token_end t6))]), t7 # rest)"
    using assms
    by (simp add: sequence_loop_unfold[of _ _ "t2 # _"] sequence_loop_unfold[of _ _ "t6 # _"]
          inner value_unfold primitive_simps prefix_entry_def sequence_loop_at_end)
  show ?thesis using assms by (simp add: value_unfold sequence_start loop)
qed

theorem value_nested_document_witness:
  "value'
     [mk_token FlowSequenceStartToken (mark_at 0 0 0) (mark_at 1 0 1),
      mk_token FlowSequenceStartToken (mark_at 1 0 1) (mark_at 2 0 2),
      mk_token ScalarToken (mark_at 2 0 2) (mark_at 3 0 3),
      mk_token FlowSequenceEndToken (mark_at 3 0 3) (mark_at 4 0 4),
      mk_token FlowEntryToken (mark_at 4 0 4) (mark_at 5 0 5),
      mk_token ScalarToken (mark_at 6 0 6) (mark_at 7 0 7),
      mk_token FlowSequenceEndToken (mark_at 7 0 7) (mark_at 8 0 8)]
   = (Inr [('''', Entry (Location 0 0 0) (Location 0 8 8)),
           (''/0'', Entry (Location 0 1 1) (Location 0 4 4)),
           (''/0/0'', Entry (Location 0 2 2) (Location 0 3 3)),
           (''/1'', Entry (Location 0 6 6) (Location 0 7 7))],
      [])"
  using value_nested_document[of
      "mk_token FlowSequenceStartToken (mark_at 0 0 0) (mark_at 1 0 1)"
      "mk_token FlowSequenceStartToken (mark_at 1 0 1) (mark_at 2 0 2)"
      "mk_token ScalarToken (mark_at 2 0 2) (mark_at 3 0 3)"
      "mk_token FlowSequenceEndToken (mark_at 3 0 3) (mark_at 4 0 4)"
      "mk_token FlowEntryToken (mark_at 4 0 4) (mark_at 5 0 5)"
      "mk_token ScalarToken (mark_at 6 0 6) (mark_at 7 0 7)"
      "mk_token FlowSequenceEndToken (mark_at 7 0 7) (mark_at 8 0 8)" "[]"]
  by simp

subsection \<open>The end token of a sequence\<close>

text \<open>
  C1, as the specification states it: a sequence opened in one form and closed by the end
  token of the other form is refused. The source does not do this. Both the loop test and
  the check after the loop accept a flow sequence end and a block end alike, whichever
  token opened the sequence: a flow sequence start followed by a block end is walked to
  the end and gives a source map.
\<close>

theorem sequence_mismatched_end_accepted:
  "sequence [mk_token FlowSequenceStartToken (mark_at 0 0 0) (mark_at 1 0 1),
             mk_token BlockEndToken (mark_at 1 0 1) (mark_at 2 0 2)]
   = (Inr [('''', Entry (Location 0 0 0) (Location 0 2 2))], [])"
  by (simp add: sequence_start sequence_loop_at_end)

text \<open>
  C1, amended. \<^verbatim>\<open>sequence\<close> returns a source map exactly when the first token is a
  sequence start of either form, the loop over the elements succeeds, and the token the
  loop stopped at is a flow sequence end or a block end, in any combination with the
  start token. The entry of the sequence then runs from the start of the start token to
  the end of that end token, which is the last token taken.
\<close>

theorem sequence_returns_iff:
  "sequence loader = (Inr es, rest) \<longleftrightarrow>
     (\<exists>s body k entries e.
        loader = s # body \<and>
        (kind s = FlowSequenceStartToken \<or> kind s = BlockSequenceStartToken) \<and>
        sequence_loop 0 [] body = (Inr (k, entries), e # rest) \<and>
        (kind e = FlowSequenceEndToken \<or> kind e = BlockEndToken) \<and>
        es = ('''', Entry (token_start s) (token_end e)) # entries)"
proof
  assume "sequence loader = (Inr es, rest)"
  then show "\<exists>s body k entries e.
        loader = s # body \<and>
        (kind s = FlowSequenceStartToken \<or> kind s = BlockSequenceStartToken) \<and>
        sequence_loop 0 [] body = (Inr (k, entries), e # rest) \<and>
        (kind e = FlowSequenceEndToken \<or> kind e = BlockEndToken) \<and>
        es = ('''', Entry (token_start s) (token_end e)) # entries"
  proof (cases rule: sequence_Inr_cases)
    case (closed s body k entries e)
    then show ?thesis by (intro exI[of _ s] exI[of _ body] exI[of _ k] exI[of _ entries] exI[of _ e]) simp
  qed
next
  assume "\<exists>s body k entries e.
        loader = s # body \<and>
        (kind s = FlowSequenceStartToken \<or> kind s = BlockSequenceStartToken) \<and>
        sequence_loop 0 [] body = (Inr (k, entries), e # rest) \<and>
        (kind e = FlowSequenceEndToken \<or> kind e = BlockEndToken) \<and>
        es = ('''', Entry (token_start s) (token_end e)) # entries"
  then obtain s body k entries e where
    "loader = s # body" "at_start (s # body)"
    "sequence_loop 0 [] body = (Inr (k, entries), e # rest)" "at_end (e # rest)"
    "es = ('''', Entry (token_start s) (token_end e)) # entries"
    by auto
  then show "sequence loader = (Inr es, rest)" by (simp add: sequence_start)
qed

theorem sequence_returns_iff_witness:
  "sequence [mk_token BlockSequenceStartToken (mark_at 0 0 0) (mark_at 0 0 0),
             mk_token FlowSequenceEndToken (mark_at 1 0 1) (mark_at 2 0 2)]
   = (Inr [('''', Entry (Location 0 0 0) (Location 0 2 2))], [])"
  using sequence_returns_iff[of
      "[mk_token BlockSequenceStartToken (mark_at 0 0 0) (mark_at 0 0 0),
        mk_token FlowSequenceEndToken (mark_at 1 0 1) (mark_at 2 0 2)]"
      "[('''', Entry (Location 0 0 0) (Location 0 2 2))]" "[]"]
  by (simp add: sequence_loop_at_end)

subsection \<open>Sequences that are never closed\<close>

lemma closes_skip_block_entry [simp]: "closes d (skip_block_entry loader) = closes d loader"
  by (cases loader) simp_all

lemma closes_skip_flow_entry [simp]: "closes d (skip_flow_entry loader) = closes d loader"
  by (cases loader) simp_all

lemma walk_keeps_depth:
  "value' loader = (Inr es, rest) \<Longrightarrow> closes d loader = closes d rest"
  "sequence loader = (Inr es, rest) \<Longrightarrow> closes d loader = closes d rest"
  "sequence_loop i acc loader = (Inr r, rest) \<Longrightarrow> closes d loader = closes d rest"
proof (induction loader and loader and i acc loader
       arbitrary: es rest d and es rest d and r rest d rule: walk_induct)
  case (walk_value loader)
  from walk_value.prems show ?case
  proof (cases rule: value_Inr_cases)
    case compound
    then show ?thesis by (rule walk_value.IH)
  next
    case (scalar t)
    then show ?thesis by simp
  qed
next
  case (walk_sequence loader)
  from walk_sequence.prems show ?case
  proof (cases rule: sequence_Inr_cases)
    case (closed s body k entries e)
    from walk_sequence.IH[OF closed(1,2,3)]
    have "closes (Suc d) body = closes (Suc d) (e # rest)" .
    with closed show ?thesis by auto
  qed
next
  case (walk_loop i acc loader)
  from walk_loop.prems show ?case
  proof (cases rule: sequence_loop_Inr_cases)
    case stop
    then show ?thesis by simp
  next
    case (step value_entries loader2)
    from walk_loop.IH(1)[OF step(1,2)] walk_loop.IH(2)[OF step]
    show ?thesis by simp
  qed
qed

lemma sequence_loop_closes:
  assumes "sequence_loop i acc loader = (Inr r, rest)"
  shows "closes 0 loader"
proof -
  from assms have "at_end rest" by (rule loop_stops_at_end)
  then have "closes 0 rest" by (cases rest) auto
  with walk_keeps_depth(3)[OF assms, of 0] show ?thesis by simp
qed

text \<open>
  C3, as the specification states it: a stream that opens a sequence and never supplies
  the end token of the form that was opened makes the walk raise. The source does not
  tell the two end tokens apart. The stream below opens a block sequence, holds no block
  end anywhere, and meets a flow sequence end after its one element (the tokens of the
  text \<^verbatim>\<open>- "a" ]\<close>, with the stream end behind them): \<^verbatim>\<open>value\<close> returns a source map.
\<close>

theorem block_sequence_closed_by_flow_end:
  "BlockEndToken \<notin> set (map kind
     [mk_token BlockEntryToken (mark_at 0 0 0) (mark_at 1 0 1),
      mk_token ScalarToken (mark_at 2 0 2) (mark_at 5 0 5),
      mk_token FlowSequenceEndToken (mark_at 6 0 6) (mark_at 7 0 7),
      mk_token StreamEndToken (mark_at 7 0 7) (mark_at 7 0 7)]) \<and>
   value' [mk_token BlockSequenceStartToken (mark_at 0 0 0) (mark_at 0 0 0),
           mk_token BlockEntryToken (mark_at 0 0 0) (mark_at 1 0 1),
           mk_token ScalarToken (mark_at 2 0 2) (mark_at 5 0 5),
           mk_token FlowSequenceEndToken (mark_at 6 0 6) (mark_at 7 0 7),
           mk_token StreamEndToken (mark_at 7 0 7) (mark_at 7 0 7)]
     = (Inr [('''', Entry (Location 0 0 0) (Location 0 7 7)),
             (''/0'', Entry (Location 0 2 2) (Location 0 5 5))],
        [mk_token StreamEndToken (mark_at 7 0 7) (mark_at 7 0 7)])"
  by (simp add: value_unfold sequence_start sequence_loop_unfold[of _ _ "_ # _ # _ # _"]
        primitive_simps sequence_loop_at_end prefix_entry_def)

text \<open>
  C3, amended. A stream that opens a sequence and never supplies an end token that closes
  it, of either kind (\<open>closes 0\<close> is false of the tokens after the start token), makes
  \<^verbatim>\<open>sequence\<close>, and \<^verbatim>\<open>value\<close> with it, raise \<^verbatim>\<open>InvalidYamlError\<close>: the result is the
  error alone, with no entries beside it.
\<close>

theorem unclosed_sequence_raises:
  assumes "kind s = FlowSequenceStartToken \<or> kind s = BlockSequenceStartToken"
    and "\<not> closes 0 body"
  shows "\<exists>msg tok. fst (sequence (s # body)) = Inl (InvalidYamlError msg tok)
                 \<and> fst (value' (s # body)) = Inl (InvalidYamlError msg tok)"
proof (cases "sequence (s # body)")
  case (Pair res rest)
  show ?thesis
  proof (cases res)
    case (Inl err)
    obtain msg tok where "err = InvalidYamlError msg tok" by (cases err)
    with Pair Inl assms(1) show ?thesis by (simp add: value_unfold)
  next
    case (Inr es)
    with Pair have "sequence (s # body) = (Inr es, rest)" by simp
    then have "closes 0 body"
    proof (cases rule: sequence_Inr_cases)
      case (closed s' body' k entries e)
      then show ?thesis by (auto dest: sequence_loop_closes)
    qed
    with assms(2) show ?thesis by simp
  qed
qed

theorem unclosed_sequence_raises_witness:
  "\<not> closes 0 [mk_token FlowSequenceStartToken (mark_at 1 0 1) (mark_at 2 0 2),
                mk_token ScalarToken (mark_at 2 0 2) (mark_at 3 0 3),
                mk_token FlowSequenceEndToken (mark_at 3 0 3) (mark_at 4 0 4)] \<and>
   (\<exists>msg tok.
      fst (sequence [mk_token FlowSequenceStartToken (mark_at 0 0 0) (mark_at 1 0 1),
                     mk_token FlowSequenceStartToken (mark_at 1 0 1) (mark_at 2 0 2),
                     mk_token ScalarToken (mark_at 2 0 2) (mark_at 3 0 3),
                     mk_token FlowSequenceEndToken (mark_at 3 0 3) (mark_at 4 0 4)])
        = Inl (InvalidYamlError msg tok) \<and>
      fst (value' [mk_token FlowSequenceStartToken (mark_at 0 0 0) (mark_at 1 0 1),
                   mk_token FlowSequenceStartToken (mark_at 1 0 1) (mark_at 2 0 2),
                   mk_token ScalarToken (mark_at 2 0 2) (mark_at 3 0 3),
                   mk_token FlowSequenceEndToken (mark_at 3 0 3) (mark_at 4 0 4)])
        = Inl (InvalidYamlError msg tok))"
  using unclosed_sequence_raises[of
      "mk_token FlowSequenceStartToken (mark_at 0 0 0) (mark_at 1 0 1)"
      "[mk_token FlowSequenceStartToken (mark_at 1 0 1) (mark_at 2 0 2),
        mk_token ScalarToken (mark_at 2 0 2) (mark_at 3 0 3),
        mk_token FlowSequenceEndToken (mark_at 3 0 3) (mark_at 4 0 4)]"]
  by simp

subsection \<open>Pointers\<close>

lemma fst_prefix_entry [simp]: "fst (prefix_entry i x) = reprefix i (fst x)"
  and snd_prefix_entry [simp]: "snd (prefix_entry i x) = snd x"
  by (simp_all add: prefix_entry_def reprefix_def split: prod.splits)

lemma relative_simps [simp]:
  "relative []" "relative (c # p) = (c = CHR ''/'')" "relative (reprefix i p)"
  by (simp_all add: relative_def reprefix_def)

lemma is_ancestor_iff: "is_ancestor p q \<longleftrightarrow> (\<exists>r. q = p @ CHR ''/'' # r)"
proof
  assume "is_ancestor p q"
  then have "take (Suc (length p)) q = p @ ''/''" by (simp add: is_ancestor_def)
  then have "q = (p @ ''/'') @ drop (Suc (length p)) q"
    by (metis append_take_drop_id)
  then show "\<exists>r. q = p @ CHR ''/'' # r" by auto
next
  assume "\<exists>r. q = p @ CHR ''/'' # r"
  then show "is_ancestor p q" by (auto simp: is_ancestor_def)
qed

lemma is_ancestor_Nil [simp]: "\<not> is_ancestor q []"
  by (simp add: is_ancestor_iff)

lemma is_ancestor_root: "is_ancestor [] q \<longleftrightarrow> q \<noteq> [] \<and> relative q"
  by (cases q) (auto simp: is_ancestor_iff)

lemma is_ancestor_irrefl [simp]: "\<not> is_ancestor p p"
  by (simp add: is_ancestor_iff)

lemma is_ancestor_reprefix [simp]: "is_ancestor (reprefix i p) (reprefix i q) = is_ancestor p q"
  by (simp add: is_ancestor_iff reprefix_def)

lemma segment_unique:
  assumes "CHR ''/'' \<notin> set a" "CHR ''/'' \<notin> set b" "relative x" "relative y" "a @ x = b @ y"
  shows "a = b \<and> x = y"
proof -
  have tw: "takeWhile (\<lambda>c. c \<noteq> CHR ''/'') (u @ z) = u" if "CHR ''/'' \<notin> set u" "relative z" for u z
  proof -
    from that(2) have "takeWhile (\<lambda>c. c \<noteq> CHR ''/'') z = []" by (cases z) simp_all
    with that(1) show ?thesis by (induction u) auto
  qed
  from tw[OF assms(1,3)] tw[OF assms(2,4)] assms(5) have "a = b" by simp
  with assms(5) show ?thesis by simp
qed

lemma reprefix_eq:
  assumes "relative x" "relative y" "reprefix i x = reprefix j y"
  shows "i = j \<and> x = y"
proof -
  from assms(3) have "decimal i @ x = decimal j @ y" by (simp add: reprefix_def)
  from segment_unique[OF _ _ assms(1,2) this] show ?thesis by (auto dest: decimal_inj)
qed

lemma is_ancestor_reprefix_index:
  assumes "relative p" "relative q" "is_ancestor (reprefix j q) (reprefix i p)"
  shows "i = j"
proof -
  from assms(3) obtain r where "reprefix i p = reprefix j (q @ CHR ''/'' # r)"
    by (auto simp: is_ancestor_iff reprefix_def)
  moreover from assms(2) have "relative (q @ CHR ''/'' # r)" by (cases q) simp_all
  ultimately show ?thesis using assms(1) by (auto dest: reprefix_eq[rotated 2])
qed

lemma depth_Nil [simp]: "depth [] = 0"
  by (simp add: depth_def)

lemma depth_reprefix [simp]: "depth (reprefix i p) = Suc (depth p)"
proof -
  have "filter (\<lambda>c. c = CHR ''/'') (decimal i) = []"
    using decimal_no_slash[of i] by (auto simp: filter_empty_conv)
  then show ?thesis by (simp add: depth_def reprefix_def)
qed

lemma depth_relative: "relative p \<Longrightarrow> p \<noteq> [] \<Longrightarrow> 0 < depth p"
  by (cases p) (simp_all add: depth_def)

lemma parent_first_append:
  "parent_first (xs @ ys) \<longleftrightarrow>
     parent_first xs \<and> parent_first ys \<and> (\<forall>x\<in>set xs. \<forall>y\<in>set ys. \<not> is_ancestor y x)"
  by (induction xs) (auto simp: list_all_iff)

lemma parent_first_map_reprefix [simp]:
  "parent_first (map (reprefix i) ps) = parent_first ps"
  by (induction ps) (auto simp: list_all_iff)

lemma parent_first_nth:
  assumes "parent_first ps" "a < b" "b < length ps"
  shows "\<not> is_ancestor (ps ! b) (ps ! a)"
  using assms
proof (induction ps arbitrary: a b)
  case Nil
  then show ?case by simp
next
  case (Cons p ps)
  show ?case
  proof (cases a)
    case 0
    with Cons.prems obtain b' where "b = Suc b'" "b' < length ps" by (cases b) auto
    with Cons.prems 0 show ?thesis by (auto simp: list_all_iff)
  next
    case (Suc a')
    with Cons.prems obtain b' where "b = Suc b'" "b' < length ps" "a' < b'" by (cases b) auto
    with Cons.prems Suc Cons.IH[of a' b'] show ?thesis by simp
  qed
qed

subsection \<open>The shape of a source map\<close>

lemma element_entries_Nil [simp]: "element_entries i [] = []"
  by (simp add: element_entries_def)

lemma element_entries_Cons [simp]:
  "element_entries i (sub # subs) = map (prefix_entry i) sub @ element_entries (Suc i) subs"
proof -
  have "[i..<i + length (sub # subs)] = i # [Suc i..<Suc i + length subs]"
    by (simp add: upt_conv_Cons del: upt_Suc)
  then show ?thesis by (simp add: element_entries_def del: upt_Suc)
qed

lemma fst_element_entries:
  "map fst (element_entries i subs) = child_pointers i (map (map fst) subs)"
  by (induction subs arbitrary: i) simp_all

lemma walk_shape:
  "value' loader = (Inr es, rest) \<Longrightarrow> source_map (map fst es)"
  "sequence loader = (Inr es, rest) \<Longrightarrow> source_map (map fst es)"
  "sequence_loop i acc loader = (Inr (k, acc'), rest) \<Longrightarrow>
     \<exists>subs. k = i + length subs \<and> acc' = acc @ element_entries i subs \<and>
            list_all (\<lambda>sub. source_map (map fst sub) \<and> (\<exists>l r. value' l = (Inr sub, r))) subs"
proof (induction loader and loader and i acc loader
       arbitrary: es rest and es rest and k acc' rest rule: walk_induct)
  case (walk_value loader)
  from walk_value.prems show ?case
  proof (cases rule: value_Inr_cases)
    case compound
    then show ?thesis by (rule walk_value.IH)
  next
    case (scalar t)
    then show ?thesis by (simp add: source_map.leaf)
  qed
next
  case (walk_sequence loader)
  from walk_sequence.prems show ?case
  proof (cases rule: sequence_Inr_cases)
    case (closed s body k entries e)
    from walk_sequence.IH[OF closed(1,2,3)] obtain subs where
      "entries = element_entries 0 subs" "list_all (\<lambda>sub. source_map (map fst sub)) subs"
      by (auto simp: list_all_iff)
    with closed(5) show ?thesis
      using source_map.node[of "map (map fst) subs"]
      by (simp add: fst_element_entries list_all_iff)
  qed
next
  case (walk_loop i acc loader)
  from walk_loop.prems show ?case
  proof (cases rule: sequence_loop_Inr_cases)
    case stop
    then show ?thesis by (intro exI[of _ "[]"]) simp
  next
    case (step value_entries loader2)
    from walk_loop.IH(2)[OF step] obtain subs where
      s: "k = i + 1 + length subs"
         "acc' = (acc @ map (prefix_entry i) value_entries) @ element_entries (i + 1) subs"
         "list_all (\<lambda>sub. source_map (map fst sub) \<and> (\<exists>l r. value' l = (Inr sub, r))) subs"
      by blast
    from walk_loop.IH(1)[OF step(1,2)] step(2)
    have "source_map (map fst value_entries) \<and> (\<exists>l r. value' l = (Inr value_entries, r))"
      by blast
    with s show ?thesis by (intro exI[of _ "value_entries # subs"]) simp
  qed
qed

lemma child_pointers_member:
  assumes "p \<in> set (child_pointers i subs)"
  shows "\<exists>j sub q. i \<le> j \<and> sub \<in> set subs \<and> q \<in> set sub \<and> p = reprefix j q"
  using assms
proof (induction subs arbitrary: i)
  case Nil
  then show ?case by simp
next
  case (Cons sub subs)
  from Cons.prems consider "p \<in> reprefix i ` set sub" | "p \<in> set (child_pointers (Suc i) subs)"
    by auto
  then show ?case
  proof cases
    case 1
    then show ?thesis by (intro exI[of _ i] exI[of _ sub]) auto
  next
    case 2
    from Cons.IH[OF this] obtain j sub' q where
      "Suc i \<le> j" "sub' \<in> set subs" "q \<in> set sub'" "p = reprefix j q" by blast
    then show ?thesis by (intro exI[of _ j] exI[of _ sub'] exI[of _ q]) simp
  qed
qed

lemma source_map_relative: "source_map ps \<Longrightarrow> p \<in> set ps \<Longrightarrow> relative p"
  by (induction rule: source_map.induct) (auto dest: child_pointers_member)

lemma source_map_root: "source_map ps \<Longrightarrow> ps \<noteq> [] \<and> hd ps = []"
  by (induction rule: source_map.induct) simp_all

lemma source_map_children:
  assumes "source_map ps" "p \<in> set (tl ps)"
  shows "\<exists>i q. p = ''/'' @ decimal i @ q \<and> relative q"
  using assms
proof (induction rule: source_map.induct)
  case leaf
  then show ?case by simp
next
  case (node subs)
  from node.prems have "p \<in> set (child_pointers 0 subs)" by simp
  from child_pointers_member[OF this] obtain j sub q where
    "sub \<in> set subs" "q \<in> set sub" "p = reprefix j q" by blast
  moreover from node.IH \<open>sub \<in> set subs\<close> have "source_map sub" by (simp add: list_all_iff)
  ultimately show ?case
    by (intro exI[of _ j] exI[of _ q]) (auto simp: reprefix_def dest: source_map_relative)
qed

lemma source_map_children_not_root:
  assumes "source_map ps" "p \<in> set (tl ps)"
  shows "p \<noteq> []" and "0 < depth p"
proof -
  from source_map_children[OF assms] obtain i q where "p = reprefix i q"
    by (auto simp: reprefix_def)
  then have p: "p = reprefix i q" .
  then show "p \<noteq> []" by (simp add: reprefix_def)
  from p show "0 < depth p" by simp
qed

lemma source_map_depth_0: "source_map ps \<Longrightarrow> filter (\<lambda>p. depth p = 0) ps = ['''']"
proof -
  assume sm: "source_map ps"
  then obtain qs where ps: "ps = [] # qs" by (cases ps) (auto dest: source_map_root)
  with sm have "\<And>q. q \<in> set qs \<Longrightarrow> depth q \<noteq> 0"
    using source_map_children_not_root(2)[of ps] by fastforce
  then have "filter (\<lambda>p. depth p = 0) qs = []" by (simp add: filter_empty_conv)
  with ps show ?thesis by simp
qed

lemma child_pointers_depth_1:
  "list_all source_map subs \<Longrightarrow>
   filter (\<lambda>p. depth p = 1) (child_pointers i subs) = map (\<lambda>j. ''/'' @ decimal j) [i..<i + length subs]"
proof (induction subs arbitrary: i)
  case Nil
  then show ?case by simp
next
  case (Cons sub subs)
  then have sm: "source_map sub" and rest: "list_all source_map subs" by simp_all
  have "filter (\<lambda>p. depth p = 1) (map (reprefix i) sub) = map (reprefix i) (filter (\<lambda>p. depth p = 0) sub)"
    by (simp add: filter_map comp_def)
  with source_map_depth_0[OF sm]
  have one: "filter (\<lambda>p. depth p = 1) (map (reprefix i) sub) = [''/'' @ decimal i]"
    by (simp add: reprefix_def)
  have "[i..<i + length (sub # subs)] = i # [Suc i..<Suc i + length subs]"
    by (simp add: upt_conv_Cons del: upt_Suc)
  with one Cons.IH[OF rest, of "Suc i"] show ?case by (simp del: upt_Suc)
qed

lemma parent_first_child_pointers:
  assumes "list_all (\<lambda>sub. source_map sub \<and> parent_first sub) subs"
  shows "parent_first (child_pointers i subs)"
  using assms
proof (induction subs arbitrary: i)
  case Nil
  then show ?case by simp
next
  case (Cons sub subs)
  then have sub: "source_map sub" "parent_first sub"
    and rest: "list_all (\<lambda>sub. source_map sub \<and> parent_first sub) subs" by simp_all
  have cross: "\<not> is_ancestor y x"
    if "x \<in> set (map (reprefix i) sub)" "y \<in> set (child_pointers (Suc i) subs)" for x y
  proof
    assume anc: "is_ancestor y x"
    from that(1) obtain x' where x: "x = reprefix i x'" "x' \<in> set sub" by auto
    from child_pointers_member[OF that(2)] obtain j sub' y' where
      y: "Suc i \<le> j" "sub' \<in> set subs" "y' \<in> set sub'" "y = reprefix j y'" by blast
    from rest y(2) have "source_map sub'" by (simp add: list_all_iff)
    from this y(3) have "relative y'" by (rule source_map_relative)
    moreover from sub(1) x(2) have "relative x'" by (rule source_map_relative)
    ultimately have "i = j" using anc x(1) y(4) by (auto dest: is_ancestor_reprefix_index)
    with y(1) show False by simp
  qed
  from sub(2) Cons.IH[OF rest, of "Suc i"] cross show ?case
    by (simp add: parent_first_append)
qed

lemma source_map_parent_first: "source_map ps \<Longrightarrow> parent_first ps"
proof (induction rule: source_map.induct)
  case leaf
  then show ?case by simp
next
  case (node subs)
  then have "parent_first (child_pointers 0 subs)"
    by (intro parent_first_child_pointers) (simp add: list_all_iff)
  then show ?case by (simp add: list_all_iff)
qed

lemma primitive_Inr_cases [consumes 1, case_names scalar]:
  assumes "primitive loader = (Inr es, rest)"
  obtains t where "loader = t # rest" "kind t = ScalarToken"
    "es = [('''', Entry (token_start t) (token_end t))]"
  using assms by (cases loader) (auto simp: primitive_simps split: if_splits)


subsection \<open>The pointers of a source map\<close>



subsection \<open>The elements of a sequence\<close>

text \<open>
  C2. When \<^verbatim>\<open>sequence\<close> returns, its loop has walked some number \<open>k\<close> of elements
  (the final \<^verbatim>\<open>sequence_index\<close>). The entries after the first are the source maps that
  \<^verbatim>\<open>value\<close> returned for the \<open>k\<close> elements, in order, each with its pointers prefixed
  by a slash and the element's index. The pointers of exactly one segment, the elements'
  own, are \<^verbatim>\<open>/0\<close>, ..., \<^verbatim>\<open>/(k-1)\<close> in this order, and they are distinct.
\<close>

theorem sequence_element_pointers:
  assumes "sequence loader = (Inr es, rest)"
  shows "\<exists>k subs.
           fst (sequence_loop 0 [] (tl loader)) = Inr (k, tl es) \<and>
           length subs = k \<and>
           list_all (\<lambda>sub. \<exists>l r. value' l = (Inr sub, r)) subs \<and>
           tl es = concat (map2 (\<lambda>i sub. map (\<lambda>(pointer, entry). (''/'' @ decimal i @ pointer, entry)) sub)
                             [0..<k] subs) \<and>
           filter (\<lambda>p. depth p = 1) (map fst es) = map (\<lambda>i. ''/'' @ decimal i) [0..<k] \<and>
           distinct (map (\<lambda>i. ''/'' @ decimal i) [0..<k])"
  using assms
proof (cases rule: sequence_Inr_cases)
  case (closed s body k entries e)
  from walk_shape(3)[OF closed(3)] obtain subs where
    subs: "k = length subs" "entries = element_entries 0 subs"
      "list_all (\<lambda>sub. source_map (map fst sub) \<and> (\<exists>l r. value' l = (Inr sub, r))) subs"
    by auto
  have 1: "fst (sequence_loop 0 [] (tl loader)) = Inr (k, tl es)"
    using closed by simp
  have 2: "list_all (\<lambda>sub. \<exists>l r. value' l = (Inr sub, r)) subs"
    using subs(3) by (simp add: list_all_iff)
  have 3: "tl es = concat (map2 (\<lambda>i sub. map (\<lambda>(pointer, entry). (''/'' @ decimal i @ pointer, entry)) sub)
                             [0..<k] subs)"
    using closed(5) subs(1,2) by (simp add: element_entries_def prefix_entry_def)
  have "list_all source_map (map (map fst) subs)"
    using subs(3) by (simp add: list_all_iff)
  from child_pointers_depth_1[OF this, of 0]
  have 4: "filter (\<lambda>p. depth p = 1) (map fst es) = map (\<lambda>i. ''/'' @ decimal i) [0..<k]"
    using closed(5) subs(1,2) by (simp add: fst_element_entries)
  have 5: "distinct (map (\<lambda>i. ''/'' @ decimal i) [0..<k])"
    by (auto simp: distinct_map inj_on_def dest: decimal_inj)
  from 1 subs(1) 2 3 4 5 show ?thesis by blast
qed

theorem sequence_element_pointers_witness:
  "sequence [mk_token FlowSequenceStartToken (mark_at 0 0 0) (mark_at 1 0 1),
             mk_token ScalarToken (mark_at 1 0 1) (mark_at 2 0 2),
             mk_token FlowEntryToken (mark_at 2 0 2) (mark_at 3 0 3),
             mk_token ScalarToken (mark_at 4 0 4) (mark_at 5 0 5),
             mk_token FlowSequenceEndToken (mark_at 5 0 5) (mark_at 6 0 6)]
     = (Inr [('''', Entry (Location 0 0 0) (Location 0 6 6)),
             (''/0'', Entry (Location 0 1 1) (Location 0 2 2)),
             (''/1'', Entry (Location 0 4 4) (Location 0 5 5))], []) \<and>
   (\<exists>k. filter (\<lambda>p. depth p = 1) ['''', ''/0'', ''/1''] = map (\<lambda>i. ''/'' @ decimal i) [0..<k])"
proof -
  let ?l = "[mk_token FlowSequenceStartToken (mark_at 0 0 0) (mark_at 1 0 1),
             mk_token ScalarToken (mark_at 1 0 1) (mark_at 2 0 2),
             mk_token FlowEntryToken (mark_at 2 0 2) (mark_at 3 0 3),
             mk_token ScalarToken (mark_at 4 0 4) (mark_at 5 0 5),
             mk_token FlowSequenceEndToken (mark_at 5 0 5) (mark_at 6 0 6)]"
  let ?es = "[('''', Entry (Location 0 0 0) (Location 0 6 6)),
              (''/0'', Entry (Location 0 1 1) (Location 0 2 2)),
              (''/1'', Entry (Location 0 4 4) (Location 0 5 5))]"
  have run: "sequence ?l = (Inr ?es, [])"
    by (simp add: sequence_start sequence_loop_unfold[of _ _ "_ # _ # _"] value_unfold
          primitive_simps sequence_loop_at_end prefix_entry_def)
  from sequence_element_pointers[OF run] obtain k where
    "filter (\<lambda>p. depth p = 1) (map fst ?es) = map (\<lambda>i. ''/'' @ decimal i) [0..<k]" by blast
  then have "\<exists>k. filter (\<lambda>p. depth p = 1) ['''', ''/0'', ''/1''] = map (\<lambda>i. ''/'' @ decimal i) [0..<k]"
    by (intro exI[of _ k]) simp
  with run show ?thesis by simp
qed

subsection \<open>Parents before children\<close>

text \<open>
  C5. In the source map \<^verbatim>\<open>sequence\<close> returns, the sequence's own entry (the empty
  pointer) is the first, and every other entry is a descendant of it. The same holds at
  every level: whenever the pointer of one entry is an ancestor of the pointer of
  another, the ancestor's entry stands earlier in the list.
\<close>

theorem sequence_parent_before_children:
  assumes "sequence loader = (Inr es, rest)"
  shows "fst (hd es) = '''' \<and>
         (\<forall>j. 0 < j \<and> j < length es \<longrightarrow> is_ancestor '''' (fst (es ! j))) \<and>
         (\<forall>i j. i < length es \<and> j < length es \<and> is_ancestor (fst (es ! i)) (fst (es ! j))
                \<longrightarrow> i < j) \<and>
         parent_first (map fst es)"
proof -
  from assms have sm: "source_map (map fst es)" by (rule walk_shape(2))
  then have pf: "parent_first (map fst es)" by (rule source_map_parent_first)
  from sm have root: "es \<noteq> []" "fst (hd es) = ''''"
    using source_map_root[of "map fst es"] by (auto simp: hd_map)
  have below: "is_ancestor '''' (fst (es ! j))" if "0 < j" "j < length es" for j
  proof -
    from that root have "fst (es ! j) \<in> set (tl (map fst es))"
      by (cases es; cases j) auto
    from source_map_children[OF sm this] show ?thesis
      by (auto simp: is_ancestor_iff)
  qed
  have order: "i < j"
    if "i < length es" "j < length es" "is_ancestor (fst (es ! i)) (fst (es ! j))" for i j
  proof (rule ccontr)
    assume "\<not> i < j"
    with that(3) have "j < i" by (cases "i = j") auto
    from parent_first_nth[OF pf this] that show False by simp
  qed
  from root below order pf show ?thesis by blast
qed

theorem sequence_parent_before_children_witness:
  "sequence [mk_token FlowSequenceStartToken (mark_at 0 0 0) (mark_at 1 0 1),
             mk_token FlowSequenceStartToken (mark_at 1 0 1) (mark_at 2 0 2),
             mk_token ScalarToken (mark_at 2 0 2) (mark_at 3 0 3),
             mk_token FlowSequenceEndToken (mark_at 3 0 3) (mark_at 4 0 4),
             mk_token FlowEntryToken (mark_at 4 0 4) (mark_at 5 0 5),
             mk_token ScalarToken (mark_at 6 0 6) (mark_at 7 0 7),
             mk_token FlowSequenceEndToken (mark_at 7 0 7) (mark_at 8 0 8)]
     = (Inr [('''', Entry (Location 0 0 0) (Location 0 8 8)),
             (''/0'', Entry (Location 0 1 1) (Location 0 4 4)),
             (''/0/0'', Entry (Location 0 2 2) (Location 0 3 3)),
             (''/1'', Entry (Location 0 6 6) (Location 0 7 7))], []) \<and>
   parent_first ['''', ''/0'', ''/0/0'', ''/1''] \<and>
   is_ancestor ''/0'' ''/0/0''"
proof -
  let ?l = "[mk_token FlowSequenceStartToken (mark_at 0 0 0) (mark_at 1 0 1),
             mk_token FlowSequenceStartToken (mark_at 1 0 1) (mark_at 2 0 2),
             mk_token ScalarToken (mark_at 2 0 2) (mark_at 3 0 3),
             mk_token FlowSequenceEndToken (mark_at 3 0 3) (mark_at 4 0 4),
             mk_token FlowEntryToken (mark_at 4 0 4) (mark_at 5 0 5),
             mk_token ScalarToken (mark_at 6 0 6) (mark_at 7 0 7),
             mk_token FlowSequenceEndToken (mark_at 7 0 7) (mark_at 8 0 8)]"
  let ?es = "[('''', Entry (Location 0 0 0) (Location 0 8 8)),
             (''/0'', Entry (Location 0 1 1) (Location 0 4 4)),
             (''/0/0'', Entry (Location 0 2 2) (Location 0 3 3)),
             (''/1'', Entry (Location 0 6 6) (Location 0 7 7))]"
  have inner: "sequence [mk_token FlowSequenceStartToken (mark_at 1 0 1) (mark_at 2 0 2),
             mk_token ScalarToken (mark_at 2 0 2) (mark_at 3 0 3),
             mk_token FlowSequenceEndToken (mark_at 3 0 3) (mark_at 4 0 4),
             mk_token FlowEntryToken (mark_at 4 0 4) (mark_at 5 0 5),
             mk_token ScalarToken (mark_at 6 0 6) (mark_at 7 0 7),
             mk_token FlowSequenceEndToken (mark_at 7 0 7) (mark_at 8 0 8)]
     = (Inr [('''', Entry (Location 0 1 1) (Location 0 4 4)),
             (''/0'', Entry (Location 0 2 2) (Location 0 3 3))],
        [mk_token FlowEntryToken (mark_at 4 0 4) (mark_at 5 0 5),
         mk_token ScalarToken (mark_at 6 0 6) (mark_at 7 0 7),
         mk_token FlowSequenceEndToken (mark_at 7 0 7) (mark_at 8 0 8)])"
    by (simp add: sequence_start sequence_loop_unfold[of _ _ "_ # _ # _"] value_unfold
          primitive_simps sequence_loop_at_end prefix_entry_def)
  have run: "sequence ?l = (Inr ?es, [])"
    by (simp add: sequence_start sequence_loop_unfold[of _ _ "_ # _ # _"] value_unfold inner
          primitive_simps sequence_loop_at_end prefix_entry_def)
  from sequence_parent_before_children[OF run]
  have "parent_first (map fst ?es)" by blast
  then have "parent_first ['''', ''/0'', ''/0/0'', ''/1'']" by simp
  moreover have "is_ancestor ''/0'' ''/0/0''" by (simp add: is_ancestor_def)
  ultimately show ?thesis using run by simp
qed

subsection \<open>Spans\<close>

lemma offsets_simps [simp]:
  "offsets [] = []"
  "offsets (t # ts) = index (start_mark t) # index (end_mark t) # offsets ts"
  "offsets (xs @ ys) = offsets xs @ offsets ys"
  by (simp_all add: offsets_def)

lemma loc_offset_token [simp]:
  "loc_offset (token_start t) = index (start_mark t)"
  "loc_offset (token_end t) = index (end_mark t)"
  by (simp_all add: token_start_def token_end_def)

lemma span_in_mono:
  assumes "span_in pre e"
  shows "span_in (a @ pre @ b) e"
proof -
  from assms obtain A B C where
    "offsets pre = A @ loc_offset (value_start e) # B @ loc_offset (value_end e) # C"
    by (auto simp: span_in_def)
  then have "offsets (a @ pre @ b) =
      (offsets a @ A) @ loc_offset (value_start e) # B @ loc_offset (value_end e) # (C @ offsets b)"
    by simp
  then show ?thesis unfolding span_in_def by blast
qed

lemma span_in_token: "span_in [t] (Entry (token_start t) (token_end t))"
  unfolding span_in_def
  by (intro exI[of _ "[]"]) simp

lemma span_in_sequence: "span_in (s # pre @ [e]) (Entry (token_start s) (token_end e))"
  unfolding span_in_def
  by (intro exI[of _ "[]"] exI[of _ "index (end_mark s) # offsets pre @ [index (start_mark e)]"]) simp

lemma skip_block_entry_suffix: "\<exists>a. loader = a @ skip_block_entry loader"
  by (cases loader) (auto intro: exI[of _ "[]"] exI[of _ "[x]" for x])

lemma skip_flow_entry_suffix: "\<exists>a. loader = a @ skip_flow_entry loader"
  by (cases loader) (auto intro: exI[of _ "[]"] exI[of _ "[x]" for x])

lemma sorted_hd_last:
  fixes xs :: "int list"
  assumes "sorted xs" "x \<in> set xs"
  shows "hd xs \<le> x" and "x \<le> last xs"
proof -
  from assms(2) obtain i where i: "i < length xs" "x = xs ! i" by (auto simp: in_set_conv_nth)
  then have ne: "xs \<noteq> []" by auto
  from assms(1) i have "xs ! 0 \<le> xs ! i" by (intro sorted_nth_mono) simp_all
  with i ne show "hd xs \<le> x" by (simp add: hd_conv_nth)
  from assms(1) i ne have "xs ! i \<le> xs ! (length xs - 1)" by (intro sorted_nth_mono) simp_all
  with i ne show "x \<le> last xs" by (simp add: last_conv_nth)
qed

lemma span_in_sorted:
  assumes "span_in pre e" "sorted (offsets pre)"
  shows "loc_offset (value_start e) \<le> loc_offset (value_end e)"
    and "hd (offsets pre) \<le> loc_offset (value_start e)"
    and "loc_offset (value_end e) \<le> last (offsets pre)"
proof -
  from assms(1) obtain A B C where
    o: "offsets pre = A @ loc_offset (value_start e) # B @ loc_offset (value_end e) # C"
    by (auto simp: span_in_def)
  with assms(2) show "loc_offset (value_start e) \<le> loc_offset (value_end e)"
    by (simp add: sorted_append)
  from o have "loc_offset (value_start e) \<in> set (offsets pre)"
    and "loc_offset (value_end e) \<in> set (offsets pre)" by simp_all
  with assms(2) show "hd (offsets pre) \<le> loc_offset (value_start e)"
    and "loc_offset (value_end e) \<le> last (offsets pre)"
    by (simp_all add: sorted_hd_last)
qed

text \<open>
  The tokens a successful run takes, and where the spans of its entries come from: the
  value's own entry runs from the first offset of the tokens taken to the last, and
  every entry starts and ends at offsets of these tokens, in this order.
\<close>

lemma walk_spans:
  "value' loader = (Inr es, rest) \<Longrightarrow>
     \<exists>pre. loader = pre @ rest \<and> pre \<noteq> [] \<and>
       loc_offset (value_start (snd (hd es))) = hd (offsets pre) \<and>
       loc_offset (value_end (snd (hd es))) = last (offsets pre) \<and>
       (\<forall>x\<in>set es. span_in pre (snd x))"
  "sequence loader = (Inr es, rest) \<Longrightarrow>
     \<exists>pre. loader = pre @ rest \<and> pre \<noteq> [] \<and>
       loc_offset (value_start (snd (hd es))) = hd (offsets pre) \<and>
       loc_offset (value_end (snd (hd es))) = last (offsets pre) \<and>
       (\<forall>x\<in>set es. span_in pre (snd x))"
  "sequence_loop i acc loader = (Inr (k, acc'), rest) \<Longrightarrow>
     \<exists>pre new. loader = pre @ rest \<and> acc' = acc @ new \<and> (\<forall>x\<in>set new. span_in pre (snd x))"
proof (induction loader and loader and i acc loader
       arbitrary: es rest and es rest and k acc' rest rule: walk_induct)
  case (walk_value loader)
  from walk_value.prems show ?case
  proof (cases rule: value_Inr_cases)
    case compound
    then show ?thesis by (intro walk_value.IH)
  next
    case (scalar t)
    then show ?thesis
      by (intro exI[of _ "[t]"]) (simp add: span_in_token)
  qed
next
  case (walk_sequence loader)
  from walk_sequence.prems show ?case
  proof (cases rule: sequence_Inr_cases)
    case (closed s body k entries e)
    from walk_sequence.IH[OF closed(1,2,3)] obtain pre' where
      pre': "body = pre' @ e # rest" "\<forall>x\<in>set entries. span_in pre' (snd x)" by auto
    let ?pre = "s # pre' @ [e]"
    have l: "loader = ?pre @ rest" using closed(1) pre'(1) by simp
    have root: "span_in ?pre (Entry (token_start s) (token_end e))"
      by (rule span_in_sequence)
    have "span_in ?pre (snd x)" if "x \<in> set entries" for x
      using pre'(2) that span_in_mono[of pre' "snd x" "[s]" "[e]"] by simp
    with root l closed(5) show ?thesis
      by (intro exI[of _ ?pre]) auto
  qed
next
  case (walk_loop i acc loader)
  from walk_loop.prems show ?case
  proof (cases rule: sequence_loop_Inr_cases)
    case stop
    then show ?thesis by (intro exI[of _ "[]"]) simp
  next
    case (step value_entries loader2)
    obtain a where a: "loader = a @ skip_block_entry loader"
      using skip_block_entry_suffix by blast
    from walk_loop.IH(1)[OF step(1,2)] obtain pre1 where
      pre1: "skip_block_entry loader = pre1 @ loader2"
            "\<forall>x\<in>set value_entries. span_in pre1 (snd x)" by auto
    obtain b where b: "loader2 = b @ skip_flow_entry loader2"
      using skip_flow_entry_suffix by blast
    from walk_loop.IH(2)[OF step] obtain pre3 new3 where
      pre3: "skip_flow_entry loader2 = pre3 @ rest"
            "acc' = (acc @ map (prefix_entry i) value_entries) @ new3"
            "\<forall>x\<in>set new3. span_in pre3 (snd x)" by auto
    let ?pre = "a @ pre1 @ b @ pre3"
    let ?new = "map (prefix_entry i) value_entries @ new3"
    have "span_in ?pre (snd x)" if "x \<in> set ?new" for x
    proof -
      from that consider y where "y \<in> set value_entries" "snd x = snd y" | "x \<in> set new3"
        by auto
      then show ?thesis
      proof cases
        case 1
        with pre1(2) have "span_in pre1 (snd x)" by simp
        from span_in_mono[OF this, of a "b @ pre3"] show ?thesis by simp
      next
        case 2
        with pre3(3) have "span_in pre3 (snd x)" by simp
        from span_in_mono[OF this, of "a @ pre1 @ b" "[]"] show ?thesis by simp
      qed
    qed
    moreover have "loader = ?pre @ rest" using a pre1(1) b pre3(1) by simp
    moreover have "acc' = acc @ ?new" using pre3(2) by simp
    ultimately show ?thesis by blast
  qed
qed

text \<open>
  C4. The source takes the offsets of an entry from the marks of the tokens and compares
  nothing, so the order of the spans is that of the tokens. For tokens given in document
  order, that is, when the offsets of the tokens a walk has taken are sorted, every
  entry of the source map returned by \<^verbatim>\<open>value\<close>, \<^verbatim>\<open>sequence\<close> or \<^verbatim>\<open>primitive\<close> starts
  no later than it ends, and the span of the first entry, the value's own, contains the
  span of every entry: it starts no later and ends no earlier. Nothing is asked of the
  tokens left in the loader.
\<close>

theorem spans_ordered_and_contained:
  assumes "value' (taken @ rest) = (Inr es, rest) \<or> sequence (taken @ rest) = (Inr es, rest)
         \<or> primitive (taken @ rest) = (Inr es, rest)"
    and "sorted (offsets taken)"
  shows "\<forall>(p, e) \<in> set es.
           loc_offset (value_start e) \<le> loc_offset (value_end e) \<and>
           loc_offset (value_start (snd (hd es))) \<le> loc_offset (value_start e) \<and>
           loc_offset (value_end e) \<le> loc_offset (value_end (snd (hd es)))"
proof -
  have "\<exists>pre. taken @ rest = pre @ rest \<and> pre \<noteq> [] \<and>
       loc_offset (value_start (snd (hd es))) = hd (offsets pre) \<and>
       loc_offset (value_end (snd (hd es))) = last (offsets pre) \<and>
       (\<forall>x\<in>set es. span_in pre (snd x))"
    using assms(1)
  proof (elim disjE)
    assume "value' (taken @ rest) = (Inr es, rest)"
    then show ?thesis by (rule walk_spans(1))
  next
    assume "sequence (taken @ rest) = (Inr es, rest)"
    then show ?thesis by (rule walk_spans(2))
  next
    assume "primitive (taken @ rest) = (Inr es, rest)"
    then show ?thesis
    proof (cases rule: primitive_Inr_cases)
      case (scalar t)
      then show ?thesis by (intro exI[of _ "[t]"]) (simp add: span_in_token)
    qed
  qed
  then have pre:
    "loc_offset (value_start (snd (hd es))) = hd (offsets taken)"
    "loc_offset (value_end (snd (hd es))) = last (offsets taken)"
    "\<forall>x\<in>set es. span_in taken (snd x)" by auto
  show ?thesis
  proof (intro ballI, clarify)
    fix p e assume "(p, e) \<in> set es"
    with pre(3) have "span_in taken e" by fastforce
    from span_in_sorted[OF this assms(2)] pre(1,2)
    show "loc_offset (value_start e) \<le> loc_offset (value_end e) \<and>
           loc_offset (value_start (snd (hd es))) \<le> loc_offset (value_start e) \<and>
           loc_offset (value_end e) \<le> loc_offset (value_end (snd (hd es)))"
      by simp
  qed
qed

theorem spans_ordered_and_contained_witness:
  "sorted (offsets [mk_token FlowSequenceStartToken (mark_at 0 0 0) (mark_at 1 0 1),
                    mk_token ScalarToken (mark_at 1 0 1) (mark_at 2 0 2),
                    mk_token FlowEntryToken (mark_at 2 0 2) (mark_at 3 0 3),
                    mk_token ScalarToken (mark_at 4 0 4) (mark_at 5 0 5),
                    mk_token FlowSequenceEndToken (mark_at 5 0 5) (mark_at 6 0 6)]) \<and>
   sequence ([mk_token FlowSequenceStartToken (mark_at 0 0 0) (mark_at 1 0 1),
              mk_token ScalarToken (mark_at 1 0 1) (mark_at 2 0 2),
              mk_token FlowEntryToken (mark_at 2 0 2) (mark_at 3 0 3),
              mk_token ScalarToken (mark_at 4 0 4) (mark_at 5 0 5),
              mk_token FlowSequenceEndToken (mark_at 5 0 5) (mark_at 6 0 6)]
             @ [mk_token StreamEndToken (mark_at 6 0 6) (mark_at 6 0 6)])
     = (Inr [('''', Entry (Location 0 0 0) (Location 0 6 6)),
             (''/0'', Entry (Location 0 1 1) (Location 0 2 2)),
             (''/1'', Entry (Location 0 4 4) (Location 0 5 5))],
        [mk_token StreamEndToken (mark_at 6 0 6) (mark_at 6 0 6)]) \<and>
   list_all (\<lambda>(p, e). loc_offset (value_start e) \<le> loc_offset (value_end e) \<and>
                       0 \<le> loc_offset (value_start e) \<and> loc_offset (value_end e) \<le> 6)
     [('''', Entry (Location 0 0 0) (Location 0 6 6)),
      (''/0'', Entry (Location 0 1 1) (Location 0 2 2)),
      (''/1'', Entry (Location 0 4 4) (Location 0 5 5))]"
proof -
  let ?l = "[mk_token FlowSequenceStartToken (mark_at 0 0 0) (mark_at 1 0 1),
             mk_token ScalarToken (mark_at 1 0 1) (mark_at 2 0 2),
             mk_token FlowEntryToken (mark_at 2 0 2) (mark_at 3 0 3),
             mk_token ScalarToken (mark_at 4 0 4) (mark_at 5 0 5),
             mk_token FlowSequenceEndToken (mark_at 5 0 5) (mark_at 6 0 6)]"
  let ?r = "[mk_token StreamEndToken (mark_at 6 0 6) (mark_at 6 0 6)]"
  let ?es = "[('''', Entry (Location 0 0 0) (Location 0 6 6)),
              (''/0'', Entry (Location 0 1 1) (Location 0 2 2)),
              (''/1'', Entry (Location 0 4 4) (Location 0 5 5))]"
  have srt: "sorted (offsets ?l)" by (simp add: mk_token_def mark_at_def)
  have run: "sequence (?l @ ?r) = (Inr ?es, ?r)"
    by (simp add: sequence_start sequence_loop_unfold[of _ _ "_ # _ # _ # _"] value_unfold
          primitive_simps sequence_loop_at_end prefix_entry_def)
  from spans_ordered_and_contained[of ?l ?r ?es, OF _ srt] run
  have "\<forall>(p, e) \<in> set ?es.
           loc_offset (value_start e) \<le> loc_offset (value_end e) \<and>
           loc_offset (value_start (snd (hd ?es))) \<le> loc_offset (value_start e) \<and>
           loc_offset (value_end e) \<le> loc_offset (value_end (snd (hd ?es)))"
    by blast
  then have "list_all (\<lambda>(p, e). loc_offset (value_start e) \<le> loc_offset (value_end e) \<and>
                       0 \<le> loc_offset (value_start e) \<and> loc_offset (value_end e) \<le> 6) ?es"
    by simp
  with srt run show ?thesis by blast
qed

end
